theory Spec2Isabelle
  imports Main
begin

section \<open>Smart Elevator Control System: data model\<close>

text \<open>
  The elevator simulation of \<^verbatim>\<open>tic_tac_toe.js\<close> (classes \<^verbatim>\<open>Passenger\<close>,
  \<^verbatim>\<open>Elevator\<close>, \<^verbatim>\<open>ElevatorSystem\<close>). JavaScript numbers that hold floors,
  counters and weights are modelled as \<open>int\<close>: the code never restricts their sign.
  Console output other than the rejection notice and the status snapshot is left out.
\<close>

datatype STATES = IDLE | MOVING | OPEN_DOOR | CLOSE_DOOR

datatype DIR = UP | DOWN | NONE

text \<open>
  \<^verbatim>\<open>class Passenger\<close>: fields \<^verbatim>\<open>id, from, to, weight\<close>. The id is the result of
  \<^verbatim>\<open>uuid()\<close> (a random string); it is a parameter of the model.
\<close>

record Passenger =
  pid :: string
  pfrom :: int
  pto :: int
  weight :: int

text \<open>The \<^verbatim>\<open>opts\<close> object of the constructors: every key may be absent.\<close>

record Opts =
  optMaxPeople :: "int option"
  optMaxWeight :: "int option"
  optTickTimeMs :: "int option"
  optTickMs :: "int option"

text \<open>\<^verbatim>\<open>opts.key || d\<close>: an absent key and the falsy number 0 both give the default.\<close>

definition or_default :: "int option \<Rightarrow> int \<Rightarrow> int" where
  "or_default v d = (case v of None \<Rightarrow> d | Some x \<Rightarrow> if x = 0 then d else x)"

text \<open>
  \<^verbatim>\<open>class Elevator\<close>. The JavaScript \<^verbatim>\<open>Set\<close> of targets iterates in insertion order,
  so it is a list without repetition, extended at the end.
\<close>

record Elevator =
  eid :: int
  totalFloors :: int
  currentFloor :: int
  state :: STATES
  direction :: DIR
  maxPeople :: int
  maxWeight :: int
  passengers :: "Passenger list"
  targets :: "int list"
  doorTimer :: int
  tickTimeMs :: int

definition set_add :: "int \<Rightarrow> int list \<Rightarrow> int list" where
  "set_add x xs = (if x \<in> set xs then xs else xs @ [x])"

definition set_has :: "int list \<Rightarrow> int \<Rightarrow> bool" where
  "set_has xs x = (x \<in> set xs)"

definition set_delete :: "int \<Rightarrow> int list \<Rightarrow> int list" where
  "set_delete x xs = removeAll x xs"

text \<open>\<^verbatim>\<open>xs.splice(i, 1)\<close>: the list without its element at index \<open>i\<close>.\<close>

definition splice1 :: "nat \<Rightarrow> 'a list \<Rightarrow> 'a list" where
  "splice1 i xs = take i xs @ drop (Suc i) xs"

section \<open>Elevator\<close>

definition Elevator_new :: "int \<Rightarrow> int \<Rightarrow> Opts \<Rightarrow> Elevator" where
  "Elevator_new i tf opts =
     \<lparr> eid = i, totalFloors = tf, currentFloor = 1, state = IDLE, direction = NONE,
       maxPeople = or_default (optMaxPeople opts) 8,
       maxWeight = or_default (optMaxWeight opts) 680,
       passengers = [], targets = [], doorTimer = 0,
       tickTimeMs = or_default (optTickTimeMs opts) 1000 \<rparr>"

definition occupancyCount :: "Elevator \<Rightarrow> int" where
  "occupancyCount el = int (length (passengers el))"

definition occupancyWeight :: "Elevator \<Rightarrow> int" where
  "occupancyWeight el = foldl (\<lambda>s p. s + weight p) 0 (passengers el)"

definition isFull :: "Elevator \<Rightarrow> bool" where
  "isFull el = (occupancyCount el \<ge> maxPeople el \<or> occupancyWeight el \<ge> maxWeight el)"

definition openDoorImmediately :: "Elevator \<Rightarrow> Elevator" where
  "openDoorImmediately el = el\<lparr>state := OPEN_DOOR, direction := NONE, doorTimer := 2\<rparr>"

definition addTarget :: "Elevator \<Rightarrow> int \<Rightarrow> Elevator" where
  "addTarget el floor =
     (if floor < 1 \<or> floor > totalFloors el then el
      else
        let el1 = el\<lparr>targets := set_add floor (targets el)\<rparr> in
        if state el1 = IDLE then
          (if currentFloor el1 = floor then openDoorImmediately el1
           else el1\<lparr>state := MOVING,
                    direction := (if floor > currentFloor el1 then UP else DOWN)\<rparr>)
        else el1)"

text \<open>
  \<^verbatim>\<open>closestTarget\<close>: the \<^verbatim>\<open>forEach\<close> over the set, with \<^verbatim>\<open>best = null\<close> and
  \<^verbatim>\<open>bestDist = Infinity\<close> both modelled by \<open>None\<close>.
\<close>

fun closestLoop :: "int \<Rightarrow> int list \<Rightarrow> int option \<Rightarrow> int option \<Rightarrow> int option" where
  "closestLoop cf [] best bestDist = best"
| "closestLoop cf (t # ts) best bestDist =
     (let d = \<bar>cf - t\<bar> in
      if (case bestDist of None \<Rightarrow> True | Some b \<Rightarrow> d < b)
      then closestLoop cf ts (Some t) (Some d)
      else closestLoop cf ts best bestDist)"

text \<open>
  On a non-empty set the loop always leaves \<^verbatim>\<open>best\<close> set (lemma \<open>closestLoop_Some\<close>
  below), so the last branch of the case is never taken.
\<close>

definition closestTarget :: "Elevator \<Rightarrow> int" where
  "closestTarget el =
     (if targets el = [] then currentFloor el
      else case closestLoop (currentFloor el) (targets el) None None of
             Some t \<Rightarrow> t
           | None \<Rightarrow> currentFloor el)"

definition handleAlightings :: "Elevator \<Rightarrow> Elevator" where
  "handleAlightings el =
     (if passengers el = [] then el
      else el\<lparr>passengers := filter (\<lambda>p. pto p \<noteq> currentFloor el) (passengers el)\<rparr>)"

definition reqDirOf :: "Passenger \<Rightarrow> DIR" where
  "reqDirOf req = (if pto req > pfrom req then UP else DOWN)"

text \<open>
  \<^verbatim>\<open>handleBoardings\<close>: the loop \<^verbatim>\<open>for (i = length - 1; i >= 0; i--)\<close> over the shared
  queue. \<open>boardLoop (Suc i)\<close> is the iteration at index \<open>i\<close>; \<open>boardLoop 0\<close> is the
  exit. The only removal is at the current index, so the index stays inside the queue.
\<close>

fun boardLoop :: "nat \<Rightarrow> Elevator \<Rightarrow> Passenger list \<Rightarrow> Elevator \<times> Passenger list" where
  "boardLoop 0 el pend = (el, pend)"
| "boardLoop (Suc i) el pend =
     (let req = pend ! i in
      if pfrom req \<noteq> currentFloor el then boardLoop i el pend
      else
        let reqDir = reqDirOf req in
        if state el = OPEN_DOOR then
          (if direction el = NONE \<or> direction el = reqDir \<or> targets el = [] then
             (let willBeFull = (occupancyCount el + 1 > maxPeople el);
                  willBeOverweight = (occupancyWeight el + weight req > maxWeight el) in
              if \<not> willBeFull \<and> \<not> willBeOverweight then
                boardLoop i
                  (el\<lparr>passengers := passengers el @ [req],
                      targets := set_add (pto req) (targets el)\<rparr>)
                  (splice1 i pend)
              else if isFull el then (el, pend)
              else boardLoop i el pend)
           else boardLoop i el pend)
        else boardLoop i el pend)"

definition handleBoardings :: "Elevator \<Rightarrow> Passenger list \<Rightarrow> Elevator \<times> Passenger list" where
  "handleBoardings el pendingRequests = boardLoop (length pendingRequests) el pendingRequests"

text \<open>
  Names for the parts of one iteration of that loop, as the source writes them: the
  condition of its direction test (the third case is \<^verbatim>\<open>this.targets.size === 0\<close>), the
  case in which neither \<^verbatim>\<open>willBeFull\<close> nor \<^verbatim>\<open>willBeOverweight\<close> holds, and the
  statements of its boarding branch on the elevator.
\<close>

definition directionMatches :: "Elevator \<Rightarrow> Passenger \<Rightarrow> bool" where
  "directionMatches el req =
     (direction el = NONE \<or> direction el = reqDirOf req \<or> targets el = [])"

definition capacityAccepts :: "Elevator \<Rightarrow> Passenger \<Rightarrow> bool" where
  "capacityAccepts el req =
     (occupancyCount el + 1 \<le> maxPeople el \<and> occupancyWeight el + weight req \<le> maxWeight el)"

definition admit :: "Elevator \<Rightarrow> Passenger \<Rightarrow> Elevator" where
  "admit el req = el\<lparr>passengers := passengers el @ [req], targets := set_add (pto req) (targets el)\<rparr>"

text \<open>\<^verbatim>\<open>stepTick\<close>: one step of the state machine; returns the elevator and the queue.\<close>

definition stepTick :: "Elevator \<Rightarrow> Passenger list \<Rightarrow> Elevator \<times> Passenger list" where
  "stepTick el pendingRequests =
     (case state el of
        IDLE \<Rightarrow>
          (if targets el \<noteq> [] then
             (let floor = closestTarget el in
              if floor \<noteq> currentFloor el then
                (el\<lparr>direction := (if floor > currentFloor el then UP else DOWN),
                    state := MOVING\<rparr>, pendingRequests)
              else (openDoorImmediately el, pendingRequests))
           else (el, pendingRequests))
      | MOVING \<Rightarrow>
          (let el1 =
                 (if direction el = UP then
                    (if currentFloor el < totalFloors el
                     then el\<lparr>currentFloor := currentFloor el + 1\<rparr> else el)
                  else if direction el = DOWN then
                    (if currentFloor el > 1
                     then el\<lparr>currentFloor := currentFloor el - 1\<rparr> else el)
                  else el) in
           if set_has (targets el1) (currentFloor el1) then
             (el1\<lparr>targets := set_delete (currentFloor el1) (targets el1),
                  state := OPEN_DOOR, doorTimer := 2\<rparr>, pendingRequests)
           else (el1, pendingRequests))
      | OPEN_DOOR \<Rightarrow>
          (let el1 = handleAlightings el;
               (el2, pend) = handleBoardings el1 pendingRequests;
               el3 = el2\<lparr>doorTimer := doorTimer el2 - 1\<rparr> in
           if doorTimer el3 \<le> 0 then (el3\<lparr>state := CLOSE_DOOR\<rparr>, pend)
           else (el3, pend))
      | CLOSE_DOOR \<Rightarrow>
          (if targets el \<noteq> [] then
             (let next = closestTarget el in
              (el\<lparr>direction := (if next > currentFloor el then UP else DOWN),
                  state := MOVING\<rparr>, pendingRequests))
           else (el\<lparr>state := IDLE, direction := NONE\<rparr>, pendingRequests)))"

text \<open>\<^verbatim>\<open>status\<close>: the per-elevator snapshot, targets sorted numerically.\<close>

record ElevatorStatus =
  st_id :: int
  st_floor :: int
  st_state :: STATES
  st_direction :: DIR
  st_people :: int
  st_weight :: int
  st_targets :: "int list"

definition status :: "Elevator \<Rightarrow> ElevatorStatus" where
  "status el =
     \<lparr> st_id = eid el, st_floor = currentFloor el, st_state = state el,
       st_direction = direction el, st_people = occupancyCount el,
       st_weight = occupancyWeight el, st_targets = sort (targets el) \<rparr>"

section \<open>ElevatorSystem\<close>

text \<open>
  \<^verbatim>\<open>class ElevatorSystem\<close>. The timer handle belongs to the external clock and is left
  out; the system's \<^verbatim>\<open>totalFloors\<close> field is \<open>sysTotalFloors\<close>.
\<close>

record ElevatorSystem =
  elevators :: "Elevator list"
  sysTotalFloors :: int
  pendingRequests :: "Passenger list"
  tickMs :: int
  tickCount :: int

definition ElevatorSystem_new :: "int \<Rightarrow> int \<Rightarrow> Opts \<Rightarrow> ElevatorSystem" where
  "ElevatorSystem_new numElevators tf opts =
     \<lparr> elevators = map (\<lambda>i. Elevator_new i tf opts) [1..numElevators],
       sysTotalFloors = tf,
       pendingRequests = [],
       tickMs = or_default (optTickMs opts) 1000,
       tickCount = 0 \<rparr>"

text \<open>
  The score of one elevator for one request. \<^verbatim>\<open>tryAssignElevator\<close> and
  \<^verbatim>\<open>tryAssignElevatorDirect\<close> carry the same text for it.
\<close>

definition elevatorScore :: "Elevator \<Rightarrow> Passenger \<Rightarrow> int" where
  "elevatorScore el passenger =
     (let reqFloor = pfrom passenger;
          reqDir = reqDirOf passenger;
          dist = \<bar>currentFloor el - reqFloor\<bar>;
          score = dist * 10;
          score = (if currentFloor el = reqFloor \<and>
                      (state el = IDLE \<or> state el = OPEN_DOOR \<or> state el = CLOSE_DOOR)
                   then score - 1000 else score);
          score = (if state el = MOVING then
                     (if (direction el = UP \<and> currentFloor el \<le> reqFloor \<and> reqDir = UP) \<or>
                         (direction el = DOWN \<and> currentFloor el \<ge> reqFloor \<and> reqDir = DOWN)
                      then score - 200 else score + 50)
                   else score);
          score = (if state el = IDLE then score - 50 else score)
      in score)"

text \<open>
  The loop of \<^verbatim>\<open>tryAssignElevator\<close> over the elevators, in array order. The pair
  (\<^verbatim>\<open>bestElevator\<close>, \<^verbatim>\<open>bestScore\<close>) is \<open>None\<close> for (\<^verbatim>\<open>null\<close>, \<^verbatim>\<open>Infinity\<close>), and the
  elevator is named by its index in the array.
\<close>

fun assignLoop :: "Passenger \<Rightarrow> Elevator list \<Rightarrow> nat \<Rightarrow> (nat \<times> int) option \<Rightarrow> (nat \<times> int) option" where
  "assignLoop passenger [] i best = best"
| "assignLoop passenger (el # els) i best =
     (if isFull el then assignLoop passenger els (Suc i) best
      else
        let score = elevatorScore el passenger in
        if weight passenger + occupancyWeight el > maxWeight el
        then assignLoop passenger els (Suc i) best
        else if (case best of None \<Rightarrow> True | Some (b, bestScore) \<Rightarrow> score < bestScore)
        then assignLoop passenger els (Suc i) (Some (i, score))
        else assignLoop passenger els (Suc i) best)"

text \<open>The loop of \<^verbatim>\<open>tryAssignElevatorDirect\<close>: both exclusions come before the score.\<close>

fun directLoop :: "Passenger \<Rightarrow> Elevator list \<Rightarrow> nat \<Rightarrow> (nat \<times> int) option \<Rightarrow> (nat \<times> int) option" where
  "directLoop passenger [] i best = best"
| "directLoop passenger (el # els) i best =
     (if isFull el then directLoop passenger els (Suc i) best
      else if weight passenger + occupancyWeight el > maxWeight el
      then directLoop passenger els (Suc i) best
      else
        let score = elevatorScore el passenger in
        if (case best of None \<Rightarrow> True | Some (b, bestScore) \<Rightarrow> score < bestScore)
        then directLoop passenger els (Suc i) (Some (i, score))
        else directLoop passenger els (Suc i) best)"

definition tryAssignElevator :: "ElevatorSystem \<Rightarrow> Passenger \<Rightarrow> ElevatorSystem \<times> nat option" where
  "tryAssignElevator s passenger =
     (case assignLoop passenger (elevators s) 0 None of
        Some (b, bestScore) \<Rightarrow>
          (s\<lparr>elevators := (elevators s)[b := addTarget (elevators s ! b) (pfrom passenger)],
             pendingRequests := pendingRequests s @ [passenger]\<rparr>, Some b)
      | None \<Rightarrow> (s, None))"

definition tryAssignElevatorDirect :: "ElevatorSystem \<Rightarrow> Passenger \<Rightarrow> ElevatorSystem \<times> nat option" where
  "tryAssignElevatorDirect s passenger =
     (case directLoop passenger (elevators s) 0 None of
        Some (b, bestScore) \<Rightarrow>
          (s\<lparr>elevators := (elevators s)[b := addTarget (elevators s ! b) (pfrom passenger)]\<rparr>,
           Some b)
      | None \<Rightarrow> (s, None))"

text \<open>The notice \<^verbatim>\<open>requestElevator\<close> prints.\<close>

datatype notice =
    InvalidRequest int int
  | RequestQueued int int
  | AssignedTo string nat

text \<open>\<^verbatim>\<open>requestElevator(from, to, weight)\<close>; \<open>newId\<close> is what \<^verbatim>\<open>uuid()\<close> returns.\<close>

definition requestElevator ::
  "ElevatorSystem \<Rightarrow> string \<Rightarrow> int \<Rightarrow> int \<Rightarrow> int \<Rightarrow> ElevatorSystem \<times> notice" where
  "requestElevator s newId fromFloor toFloor w =
     (if fromFloor < 1 \<or> fromFloor > sysTotalFloors s \<or> toFloor < 1 \<or>
         toFloor > sysTotalFloors s \<or> fromFloor = toFloor
      then (s, InvalidRequest fromFloor toFloor)
      else
        let passenger = \<lparr> pid = newId, pfrom = fromFloor, pto = toFloor, weight = w \<rparr>;
            (s1, assigned) = tryAssignElevator s passenger in
        case assigned of
          None \<Rightarrow> (s1\<lparr>pendingRequests := pendingRequests s1 @ [passenger]\<rparr>,
                   RequestQueued fromFloor toFloor)
        | Some b \<Rightarrow> (s1, AssignedTo (pid passenger) b))"

text \<open>\<^verbatim>\<open>findIndex\<close>: \<open>None\<close> is the \<^verbatim>\<open>-1\<close> of JavaScript.\<close>

fun findIndex :: "('a \<Rightarrow> bool) \<Rightarrow> 'a list \<Rightarrow> nat option" where
  "findIndex P [] = None"
| "findIndex P (x # xs) =
     (if P x then Some 0 else (case findIndex P xs of None \<Rightarrow> None | Some k \<Rightarrow> Some (Suc k)))"

text \<open>
  \<^verbatim>\<open>releasePendingToIdleElevators\<close>: the same descending index loop; a request whose
  assignment succeeds is removed at the first index that carries its id.
\<close>

fun releaseLoop :: "nat \<Rightarrow> ElevatorSystem \<Rightarrow> ElevatorSystem" where
  "releaseLoop 0 s = s"
| "releaseLoop (Suc i) s =
     (let req = pendingRequests s ! i;
          (s1, el) = tryAssignElevatorDirect s req in
      case el of
        Some b \<Rightarrow>
          (case findIndex (\<lambda>p. pid p = pid req) (pendingRequests s1) of
             Some idx \<Rightarrow> releaseLoop i (s1\<lparr>pendingRequests := splice1 idx (pendingRequests s1)\<rparr>)
           | None \<Rightarrow> releaseLoop i s1)
      | None \<Rightarrow> releaseLoop i s1)"

definition releasePendingToIdleElevators :: "ElevatorSystem \<Rightarrow> ElevatorSystem" where
  "releasePendingToIdleElevators s = releaseLoop (length (pendingRequests s)) s"

text \<open>The first loop of \<^verbatim>\<open>tick\<close>: a direct assignment attempt per queued request.\<close>

fun tickAssignLoop :: "nat \<Rightarrow> ElevatorSystem \<Rightarrow> ElevatorSystem" where
  "tickAssignLoop 0 s = s"
| "tickAssignLoop (Suc i) s =
     (let req = pendingRequests s ! i;
          (s1, assigned) = tryAssignElevatorDirect s req in
      tickAssignLoop i s1)"

text \<open>The second loop of \<^verbatim>\<open>tick\<close>: every elevator steps against the shared queue.\<close>

fun stepLoop :: "Elevator list \<Rightarrow> Passenger list \<Rightarrow> Elevator list \<times> Passenger list" where
  "stepLoop [] pend = ([], pend)"
| "stepLoop (el # els) pend =
     (let (el', pend') = stepTick el pend;
          (els', pend'') = stepLoop els pend' in
      (el' # els', pend''))"

text \<open>\<^verbatim>\<open>logStatus\<close>: the snapshot of every elevator and the queue as origin/destination pairs.\<close>

definition logStatus :: "ElevatorSystem \<Rightarrow> ElevatorStatus list \<times> (int \<times> int) list" where
  "logStatus s = (map status (elevators s), map (\<lambda>r. (pfrom r, pto r)) (pendingRequests s))"

definition tick :: "ElevatorSystem \<Rightarrow> ElevatorSystem \<times> (ElevatorStatus list \<times> (int \<times> int) list)" where
  "tick s =
     (let s0 = s\<lparr>tickCount := tickCount s + 1\<rparr>;
          s1 = tickAssignLoop (length (pendingRequests s0)) s0;
          (els, pend) = stepLoop (elevators s1) (pendingRequests s1);
          s2 = s1\<lparr>elevators := els, pendingRequests := pend\<rparr>;
          snapshot = logStatus s2;
          s3 = (if tickCount s2 mod 10 = 0 then releasePendingToIdleElevators s2 else s2)
      in (s3, snapshot))"

text \<open>
  A run of the system: the calls a client and the clock make, in order. The states at
  tick boundaries are the states a run reaches.
\<close>

datatype event = Request string int int int | Tick

fun apply_event :: "ElevatorSystem \<Rightarrow> event \<Rightarrow> ElevatorSystem" where
  "apply_event s (Request newId fromFloor toFloor w) =
     fst (requestElevator s newId fromFloor toFloor w)"
| "apply_event s Tick = fst (tick s)"

definition run :: "ElevatorSystem \<Rightarrow> event list \<Rightarrow> ElevatorSystem" where
  "run s evs = foldl apply_event s evs"

section \<open>The specification's notions\<close>

text \<open>
  The definitions of this section follow the words of the specification, not the code;
  the theorems below compare them with the code.

  An elevator is excluded from assignment when it is full or when the request's weight
  added to its current weight exceeds its maximum weight.
\<close>

definition eligible :: "Elevator \<Rightarrow> Passenger \<Rightarrow> bool" where
  "eligible el r = (\<not> isFull el \<and> \<not> (occupancyWeight el + weight r > maxWeight el))"

text \<open>Moving toward the origin floor in the request's own direction.\<close>

definition movingToward :: "Elevator \<Rightarrow> Passenger \<Rightarrow> bool" where
  "movingToward el r =
     ((direction el = UP \<and> currentFloor el \<le> pfrom r \<and> pto r > pfrom r) \<or>
      (direction el = DOWN \<and> currentFloor el \<ge> pfrom r \<and> \<not> pto r > pfrom r))"

text \<open>The score of the specification, as one sum of bonuses and penalties.\<close>

definition score_spec :: "Elevator \<Rightarrow> Passenger \<Rightarrow> int" where
  "score_spec el r =
     10 * \<bar>currentFloor el - pfrom r\<bar>
     - (if currentFloor el = pfrom r \<and> state el \<in> {IDLE, OPEN_DOOR, CLOSE_DOOR} then 1000 else 0)
     - (if state el = MOVING \<and> movingToward el r then 200 else 0)
     + (if state el = MOVING \<and> \<not> movingToward el r then 50 else 0)
     - (if state el = IDLE then 50 else 0)"





section \<open>Invariants\<close>

text \<open>
  The states at tick boundaries are the states of runs; an invariant of the system is a
  property \<open>P\<close> of every elevator together with a property \<open>Q\<close> of every queued request.
\<close>

definition sysInv :: "(Elevator \<Rightarrow> bool) \<Rightarrow> (Passenger \<Rightarrow> bool) \<Rightarrow> ElevatorSystem \<Rightarrow> bool" where
  "sysInv P Q s = (list_all P (elevators s) \<and> list_all Q (pendingRequests s))"

text \<open>The floor invariant for a building of \<open>tf\<close> floors, and the capacity invariant.\<close>

definition floorInv :: "int \<Rightarrow> Elevator \<Rightarrow> bool" where
  "floorInv tf el = (1 \<le> currentFloor el \<and> currentFloor el \<le> tf \<and> totalFloors el = tf)"

definition capInv :: "Elevator \<Rightarrow> bool" where
  "capInv el =
     (occupancyCount el \<le> maxPeople el \<and> 0 \<le> occupancyWeight el \<and>
      occupancyWeight el \<le> maxWeight el \<and> list_all (\<lambda>p. 0 \<le> weight p) (passengers el))"

text \<open>
  The inputs under which the capacity invariant holds: a request weight that is not
  negative, and limits that are absent or not negative.
\<close>

fun weightOk :: "event \<Rightarrow> bool" where
  "weightOk (Request newId fromFloor toFloor w) = (0 \<le> w)"
| "weightOk Tick = True"

definition limitsOk :: "Opts \<Rightarrow> bool" where
  "limitsOk opts =
     ((case optMaxPeople opts of None \<Rightarrow> True | Some v \<Rightarrow> 0 \<le> v) \<and>
      (case optMaxWeight opts of None \<Rightarrow> True | Some v \<Rightarrow> 0 \<le> v))"

section \<open>Concrete systems used as test inputs\<close>

text \<open>One elevator, three floors, default capacity (8 people, 680 kg).\<close>

definition defaultOpts :: Opts where
  "defaultOpts = \<lparr>optMaxPeople = None, optMaxWeight = None, optTickTimeMs = None, optTickMs = None\<rparr>"

definition smallSystem :: ElevatorSystem where
  "smallSystem = ElevatorSystem_new 1 3 defaultOpts"

text \<open>
  A request from floor 1 to floor 3 and two ticks: the passenger boarded at floor 1, the
  doors are closing, and floor 1 is still a target (the assignment at submission added
  it while the elevator opened its doors there).
\<close>

definition boardedSystem :: ElevatorSystem where
  "boardedSystem = run smallSystem [Request ''r1'' 1 3 70, Tick, Tick]"


definition departedSystem :: ElevatorSystem where
  "departedSystem = run boardedSystem [Tick]"

definition movingElevator :: Elevator where
  "movingElevator = elevators departedSystem ! 0"

text \<open>
  Three elevators, twelve floors: after a request 5 \<rightarrow> 9 and two ticks the first one is
  moving up at floor 3, the other two idle at floor 1.
\<close>

definition threeSystem :: ElevatorSystem where
  "threeSystem = run (ElevatorSystem_new 3 12 defaultOpts) [Request ''a'' 5 9 60, Tick, Tick]"

definition lobbyRequest :: Passenger where
  "lobbyRequest = \<lparr>pid = ''c'', pfrom = 1, pto = 8, weight = 70\<rparr>"

definition heavyRequest :: Passenger where
  "heavyRequest = \<lparr>pid = ''d'', pfrom = 1, pto = 8, weight = 681\<rparr>"

text \<open>A configuration with a negative people limit and a negative weight limit.\<close>

definition badOpts :: Opts where
  "badOpts = \<lparr>optMaxPeople = Some (- 1), optMaxWeight = Some (- 680), optTickTimeMs = None, optTickMs = None\<rparr>"

text \<open>
  One elevator that takes one person; two requests wait at floor 1, one at floor 2.
\<close>

definition onePersonOpts :: Opts where
  "onePersonOpts = \<lparr>optMaxPeople = Some 1, optMaxWeight = None, optTickTimeMs = None, optTickMs = None\<rparr>"



text \<open>
  Further runs of the small system: up to the top floor; in a building of zero floors;
  with a request of negative weight; and with a request of negative weight that lets a
  700 kg request board and then alights.
\<close>

definition topSystem :: ElevatorSystem where
  "topSystem = run smallSystem [Request ''r1'' 1 3 70, Tick, Tick, Tick, Tick, Tick, Tick, Tick, Tick, Tick]"

definition noFloorSystem :: ElevatorSystem where
  "noFloorSystem = run (ElevatorSystem_new 1 0 defaultOpts) [Tick]"

definition negativeWeightSystem :: ElevatorSystem where
  "negativeWeightSystem = run smallSystem [Request ''n1'' 1 3 (- 5), Tick]"

definition overweightSystem :: ElevatorSystem where
  "overweightSystem = run smallSystem
     [Request ''n2'' 1 2 (- 100), Request ''n3'' 1 3 700,
      Tick, Tick, Tick, Tick, Tick, Tick, Tick, Tick, Tick]"

text \<open>The one-person elevator after its first boarding step.\<close>

definition fullSystem :: ElevatorSystem where
  "fullSystem = run (ElevatorSystem_new 1 3 onePersonOpts)
                  [Request ''p1'' 1 3 70, Request ''p2'' 1 2 80, Request ''p3'' 2 3 60, Tick]"











section \<open>Nearest target\<close>





section \<open>Submission\<close>

text \<open>
  C6. A submission whose origin or destination lies outside \<open>[1, totalFloors]\<close>, or
  whose origin equals its destination, returns the system exactly as it was (queue,
  elevators with their targets, passengers, floors and states, counters) together with
  the invalid-request notice.
\<close>

theorem C6_invalid_request_rejected:
  assumes "fromFloor < 1 \<or> fromFloor > sysTotalFloors s \<or> toFloor < 1 \<or>
           toFloor > sysTotalFloors s \<or> fromFloor = toFloor"
  shows "requestElevator s newId fromFloor toFloor w = (s, InvalidRequest fromFloor toFloor)"
  using assms unfolding requestElevator_def by simp

theorem C6_invalid_request_rejected_witness:
  "requestElevator boardedSystem ''r2'' 2 2 70 = (boardedSystem, InvalidRequest 2 2) \<and>
   requestElevator boardedSystem ''r3'' 0 2 70 = (boardedSystem, InvalidRequest 0 2) \<and>
   requestElevator boardedSystem ''r4'' 1 4 70 = (boardedSystem, InvalidRequest 1 4) \<and>
   sysTotalFloors boardedSystem = 3"
proof -
  have tf: "sysTotalFloors boardedSystem = 3" by code_simp
  have a: "requestElevator boardedSystem ''r2'' 2 2 70 = (boardedSystem, InvalidRequest 2 2)"
    by (rule C6_invalid_request_rejected) simp
  have b: "requestElevator boardedSystem ''r3'' 0 2 70 = (boardedSystem, InvalidRequest 0 2)"
    by (rule C6_invalid_request_rejected) simp
  have c: "requestElevator boardedSystem ''r4'' 1 4 70 = (boardedSystem, InvalidRequest 1 4)"
    by (rule C6_invalid_request_rejected) (simp add: tf)
  show ?thesis using a b c tf by simp
qed

lemma tryAssignElevator_pending:
  "pendingRequests (fst (tryAssignElevator s p)) =
     (if snd (tryAssignElevator s p) = None then pendingRequests s else pendingRequests s @ [p])"
  by (simp add: tryAssignElevator_def split: option.splits prod.splits)

text \<open>
  C7. A valid submission (both floors in range, origin different from destination)
  leaves the queue equal to the old queue followed by the one new request, whatever the
  assignment attempt returned: \<^verbatim>\<open>tryAssignElevator\<close> appends it when it finds an
  elevator, \<^verbatim>\<open>requestElevator\<close> appends it when it does not.
\<close>

theorem C7_valid_request_appended_once:
  assumes "1 \<le> fromFloor" and "fromFloor \<le> sysTotalFloors s"
    and "1 \<le> toFloor" and "toFloor \<le> sysTotalFloors s" and "fromFloor \<noteq> toFloor"
  shows "pendingRequests (fst (requestElevator s newId fromFloor toFloor w)) =
           pendingRequests s @ [\<lparr>pid = newId, pfrom = fromFloor, pto = toFloor, weight = w\<rparr>]"
proof -
  let ?p = "\<lparr>pid = newId, pfrom = fromFloor, pto = toFloor, weight = w\<rparr>"
  obtain s1 a where t: "tryAssignElevator s ?p = (s1, a)" by (cases "tryAssignElevator s ?p")
  have p1: "pendingRequests s1 = (if a = None then pendingRequests s else pendingRequests s @ [?p])"
    using tryAssignElevator_pending [of s ?p] t by simp
  show ?thesis using assms t p1
    by (cases a) (simp_all add: requestElevator_def)
qed

text \<open>The first submission is assigned to elevator 0, the second (700 kg) to none.\<close>

theorem C7_valid_request_appended_once_witness:
  "snd (requestElevator smallSystem ''r1'' 1 3 70) = AssignedTo ''r1'' 0 \<and>
   pendingRequests (fst (requestElevator smallSystem ''r1'' 1 3 70)) =
     [\<lparr>pid = ''r1'', pfrom = 1, pto = 3, weight = 70\<rparr>] \<and>
   snd (requestElevator boardedSystem ''r5'' 2 1 700) = RequestQueued 2 1 \<and>
   pendingRequests (fst (requestElevator boardedSystem ''r5'' 2 1 700)) =
     [\<lparr>pid = ''r5'', pfrom = 2, pto = 1, weight = 700\<rparr>]"
proof -
  have tf: "sysTotalFloors smallSystem = 3" "sysTotalFloors boardedSystem = 3" by code_simp+
  have p0: "pendingRequests smallSystem = []" "pendingRequests boardedSystem = []" by code_simp+
  have n1: "snd (requestElevator smallSystem ''r1'' 1 3 70) = AssignedTo ''r1'' 0" by code_simp
  have n2: "snd (requestElevator boardedSystem ''r5'' 2 1 700) = RequestQueued 2 1" by code_simp
  have a: "pendingRequests (fst (requestElevator smallSystem ''r1'' 1 3 70)) =
     pendingRequests smallSystem @ [\<lparr>pid = ''r1'', pfrom = 1, pto = 3, weight = 70\<rparr>]"
    by (rule C7_valid_request_appended_once) (simp_all add: tf)
  have b: "pendingRequests (fst (requestElevator boardedSystem ''r5'' 2 1 700)) =
     pendingRequests boardedSystem @ [\<lparr>pid = ''r5'', pfrom = 2, pto = 1, weight = 700\<rparr>]"
    by (rule C7_valid_request_appended_once) (simp_all add: tf)
  show ?thesis using a b n1 n2 p0 by simp
qed

section \<open>The state machine\<close>



text \<open>
  C2, as the code has it. A \<open>MOVING\<close> elevator going \<open>UP\<close> below the top floor rises
  by one floor, one going \<open>DOWN\<close> above floor 1 descends by one floor, and in every
  other case (at the boundary in its direction of travel) the floor does not change.
\<close>

theorem C2_moving_floor_step:
  assumes "state el = MOVING"
  shows "currentFloor (fst (stepTick el pend)) =
           (if direction el = UP \<and> currentFloor el < totalFloors el then currentFloor el + 1
            else if direction el = DOWN \<and> currentFloor el > 1 then currentFloor el - 1
            else currentFloor el)"
  using assms by (simp add: stepTick_def Let_def)

theorem C2_moving_floor_step_witness:
  "state movingElevator = MOVING \<and>
   currentFloor (fst (stepTick movingElevator [])) = currentFloor movingElevator"
proof -
  have h: "state movingElevator = MOVING" by code_simp
  have d: "direction movingElevator = DOWN" "currentFloor movingElevator = 1" by code_simp+
  show ?thesis using C2_moving_floor_step [OF h, of "[]"] h d by simp
qed

text \<open>
  The claim as stated fails on a state the system reaches: after the request 1 \<rightarrow> 3 and
  three ticks the elevator is \<open>MOVING\<close> \<open>DOWN\<close> at floor 1, and the next step leaves
  it at floor 1.
\<close>

theorem C2_moving_floor_step_counterexample:
  "state movingElevator = MOVING \<and> direction movingElevator = DOWN \<and>
   currentFloor movingElevator = 1 \<and>
   currentFloor (fst (stepTick movingElevator (pendingRequests departedSystem))) = 1"
  by code_simp

section \<open>Assignment\<close>

lemma elevatorScore_spec: "elevatorScore el r = score_spec el r"
  by (simp add: elevatorScore_def score_spec_def movingToward_def reqDirOf_def Let_def)

lemma assignLoop_directLoop: "assignLoop r els i best = directLoop r els i best"
  by (induction els arbitrary: i best) (simp_all add: Let_def)

lemma directLoop_Cons:
  "directLoop r (el # els) i best =
     (if eligible el r \<and> (case best of None \<Rightarrow> True | Some (b, s0) \<Rightarrow> score_spec el r < s0)
      then directLoop r els (Suc i) (Some (i, score_spec el r))
      else directLoop r els (Suc i) best)"
  by (simp add: eligible_def Let_def elevatorScore_spec add.commute)

lemma directLoop_None:
  "directLoop r els i best = None \<longleftrightarrow> best = None \<and> (\<forall>el\<in>set els. \<not> eligible el r)"
proof (induction els arbitrary: i best)
  case Nil
  show ?case by simp
next
  case (Cons el els)
  show ?case unfolding directLoop_Cons using Cons.IH by (auto split: option.splits)
qed

lemma directLoop_Some:
  "directLoop r els i best = Some (b, sc) \<Longrightarrow>
     best = Some (b, sc) \<or>
     (i \<le> b \<and> b < i + length els \<and> eligible (els ! (b - i)) r \<and> sc = score_spec (els ! (b - i)) r)"
proof (induction els arbitrary: i best)
  case Nil
  then show ?case by simp
next
  case (Cons el els)
  show ?case
  proof (cases "eligible el r \<and> (case best of None \<Rightarrow> True | Some (b, s0) \<Rightarrow> score_spec el r < s0)")
    case True
    then have "directLoop r els (Suc i) (Some (i, score_spec el r)) = Some (b, sc)"
      using Cons.prems unfolding directLoop_Cons by simp
    from Cons.IH [OF this] show ?thesis using True
      by (auto simp: nth_Cons' Suc_diff_le)
  next
    case False
    then have "directLoop r els (Suc i) best = Some (b, sc)"
      using Cons.prems unfolding directLoop_Cons by (simp split: if_splits)
    from Cons.IH [OF this] show ?thesis
      by (auto simp: nth_Cons' Suc_diff_le)
  qed
qed

lemma directLoop_lt_best:
  "directLoop r els i (Some (b0, s0)) = Some (b, sc) \<Longrightarrow> b0 < i \<Longrightarrow> i \<le> b \<Longrightarrow> sc < s0"
proof (induction els arbitrary: i b0 s0)
  case Nil
  then show ?case by simp
next
  case (Cons el els)
  show ?case
  proof (cases "eligible el r \<and> score_spec el r < s0")
    case True
    then have d: "directLoop r els (Suc i) (Some (i, score_spec el r)) = Some (b, sc)"
      using Cons.prems(1) unfolding directLoop_Cons by simp
    show ?thesis
    proof (cases "Suc i \<le> b")
      case True
      from Cons.IH [OF d _ True] have "sc < score_spec el r" by simp
      then show ?thesis using \<open>eligible el r \<and> score_spec el r < s0\<close> by simp
    next
      case False
      with directLoop_Some [OF d] have "sc = score_spec el r" by auto
      then show ?thesis using True by simp
    qed
  next
    case False
    then have d: "directLoop r els (Suc i) (Some (b0, s0)) = Some (b, sc)"
      using Cons.prems(1) unfolding directLoop_Cons by (simp split: if_splits)
    have "Suc i \<le> b" using directLoop_Some [OF d] Cons.prems(2,3) by auto
    from Cons.IH [OF d _ this] Cons.prems(2) show ?thesis by simp
  qed
qed

lemma directLoop_le_best:
  "directLoop r els i (Some (b0, s0)) = Some (b, sc) \<Longrightarrow> sc \<le> s0"
proof (induction els arbitrary: i b0 s0)
  case Nil
  then show ?case by simp
next
  case (Cons el els)
  show ?case
  proof (cases "eligible el r \<and> score_spec el r < s0")
    case True
    then have d: "directLoop r els (Suc i) (Some (i, score_spec el r)) = Some (b, sc)"
      using Cons.prems(1) unfolding directLoop_Cons by simp
    from Cons.IH [OF d] True show ?thesis by simp
  next
    case False
    then have d: "directLoop r els (Suc i) (Some (b0, s0)) = Some (b, sc)"
      using Cons.prems(1) unfolding directLoop_Cons by (simp split: if_splits)
    from Cons.IH [OF d] show ?thesis .
  qed
qed

lemma directLoop_step:
  assumes "directLoop r (el # els) i best = Some (b, sc)"
  shows "directLoop r els (Suc i)
           (if eligible el r \<and> (case best of None \<Rightarrow> True | Some (b, s0) \<Rightarrow> score_spec el r < s0)
            then Some (i, score_spec el r) else best) = Some (b, sc)"
proof (cases "eligible el r \<and> (case best of None \<Rightarrow> True | Some (b, s0) \<Rightarrow> score_spec el r < s0)")
  case True
  from assms have "directLoop r els (Suc i) (Some (i, score_spec el r)) = Some (b, sc)"
    unfolding directLoop_Cons if_P [OF True] .
  then show ?thesis unfolding if_P [OF True] .
next
  case False
  from assms have "directLoop r els (Suc i) best = Some (b, sc)"
    unfolding directLoop_Cons if_not_P [OF False] .
  then show ?thesis unfolding if_not_P [OF False] .
qed

lemma directLoop_min:
  "directLoop r els i best = Some (b, sc) \<Longrightarrow> j < length els \<Longrightarrow> eligible (els ! j) r \<Longrightarrow>
     sc \<le> score_spec (els ! j) r"
proof (induction els arbitrary: i best j)
  case Nil
  then show ?case by simp
next
  case (Cons el els)
  let ?c = "eligible el r \<and> (case best of None \<Rightarrow> True | Some (b, s0) \<Rightarrow> score_spec el r < s0)"
  let ?best' = "if ?c then Some (i, score_spec el r) else best"
  have d: "directLoop r els (Suc i) ?best' = Some (b, sc)"
    using directLoop_step [OF Cons.prems(1)] .
  show ?case
  proof (cases j)
    case 0
    then have e: "eligible el r" using Cons.prems(3) by simp
    show ?thesis
    proof (cases ?c)
      case True
      with d directLoop_le_best [of r els "Suc i" i "score_spec el r" b sc] 0 show ?thesis by simp
    next
      case False
      with e obtain b0 s0 where b: "best = Some (b0, s0)" "s0 \<le> score_spec el r"
        by (cases best) auto
      with d False directLoop_le_best [of r els "Suc i" b0 s0 b sc] 0 show ?thesis by simp
    qed
  next
    case (Suc j')
    with Cons.IH [OF d, of j'] Cons.prems(2,3) show ?thesis by simp
  qed
qed

lemma directLoop_first:
  "directLoop r els i best = Some (b, sc) \<Longrightarrow>
   (case best of None \<Rightarrow> True | Some (b0, s0) \<Rightarrow> b0 < i) \<Longrightarrow>
   i \<le> b \<Longrightarrow> j < b - i \<Longrightarrow> eligible (els ! j) r \<Longrightarrow> sc < score_spec (els ! j) r"
proof (induction els arbitrary: i best j)
  case Nil
  then show ?case by simp
next
  case (Cons el els)
  let ?c = "eligible el r \<and> (case best of None \<Rightarrow> True | Some (b, s0) \<Rightarrow> score_spec el r < s0)"
  let ?best' = "if ?c then Some (i, score_spec el r) else best"
  have d: "directLoop r els (Suc i) ?best' = Some (b, sc)"
    using directLoop_step [OF Cons.prems(1)] .
  have inv: "case ?best' of None \<Rightarrow> True | Some (b0, s0) \<Rightarrow> b0 < Suc i"
    using Cons.prems(2) by (auto split: option.splits)
  have sb: "Suc i \<le> b" using Cons.prems(3,4) by simp
  show ?case
  proof (cases j)
    case 0
    then have e: "eligible el r" using Cons.prems(5) by simp
    show ?thesis
    proof (cases ?c)
      case True
      with d directLoop_lt_best [of r els "Suc i" i "score_spec el r" b sc] sb 0 show ?thesis by simp
    next
      case False
      with e obtain b0 s0 where b: "best = Some (b0, s0)" "s0 \<le> score_spec el r"
        by (cases best) auto
      have "b0 < Suc i" using Cons.prems(2) b by simp
      with d False b directLoop_lt_best [of r els "Suc i" b0 s0 b sc] sb 0 show ?thesis by simp
    qed
  next
    case (Suc j')
    with Cons.IH [OF d inv sb, of j'] Cons.prems(4,5) show ?thesis by simp
  qed
qed

text \<open>
  C4. Both assignment routines return the same elevator. They return none exactly when
  every elevator is excluded (full, or its weight plus the request's weight above its
  maximum weight). Otherwise the winner is a non-excluded elevator whose score, the
  specification's \<open>score_spec\<close>, is minimal among the non-excluded ones and strictly
  smaller than the score of every non-excluded elevator before it in the array (the
  first one found with the minimum wins); it receives the origin floor as a target.
\<close>

theorem C4_assignment_first_minimum:
  "snd (tryAssignElevator s r) = snd (tryAssignElevatorDirect s r) \<and>
   (case snd (tryAssignElevatorDirect s r) of
      None \<Rightarrow> (\<forall>el \<in> set (elevators s). \<not> eligible el r) \<and> tryAssignElevatorDirect s r = (s, None)
    | Some b \<Rightarrow>
        b < length (elevators s) \<and> eligible (elevators s ! b) r \<and>
        (\<forall>j < length (elevators s). eligible (elevators s ! j) r \<longrightarrow>
           score_spec (elevators s ! b) r \<le> score_spec (elevators s ! j) r \<and>
           (j < b \<longrightarrow> score_spec (elevators s ! b) r < score_spec (elevators s ! j) r)) \<and>
        fst (tryAssignElevatorDirect s r) =
          s\<lparr>elevators := (elevators s)[b := addTarget (elevators s ! b) (pfrom r)]\<rparr> \<and>
        elevators (fst (tryAssignElevator s r)) =
          (elevators s)[b := addTarget (elevators s ! b) (pfrom r)])"
proof -
  let ?els = "elevators s"
  have same: "snd (tryAssignElevator s r) = snd (tryAssignElevatorDirect s r)"
    by (simp add: tryAssignElevator_def tryAssignElevatorDirect_def assignLoop_directLoop
        split: option.splits)
  show ?thesis
  proof (cases "directLoop r ?els 0 None")
    case None
    then have "\<forall>el \<in> set ?els. \<not> eligible el r" using directLoop_None [of r ?els 0 None] by simp
    then show ?thesis using None same by (simp add: tryAssignElevatorDirect_def)
  next
    case (Some w)
    obtain b sc where w: "w = (b, sc)" by (cases w)
    have d: "directLoop r ?els 0 None = Some (b, sc)" using Some w by simp
    have b: "b < length ?els" "eligible (?els ! b) r" "sc = score_spec (?els ! b) r"
      using directLoop_Some [OF d] by auto
    have m: "\<forall>j < length ?els. eligible (?els ! j) r \<longrightarrow>
           score_spec (?els ! b) r \<le> score_spec (?els ! j) r \<and>
           (j < b \<longrightarrow> score_spec (?els ! b) r < score_spec (?els ! j) r)"
      using directLoop_min [OF d] directLoop_first [OF d, simplified] b(3) by auto
    have r1: "snd (tryAssignElevatorDirect s r) = Some b"
      and r2: "fst (tryAssignElevatorDirect s r) =
          s\<lparr>elevators := ?els[b := addTarget (?els ! b) (pfrom r)]\<rparr>"
      and r3: "elevators (fst (tryAssignElevator s r)) = ?els[b := addTarget (?els ! b) (pfrom r)]"
      using d by (simp_all add: tryAssignElevatorDirect_def tryAssignElevator_def assignLoop_directLoop)
    show ?thesis using same b(1,2) m r1 r2 r3 by simp
  qed
qed

text \<open>
  On \<open>threeSystem\<close> a request from floor 1 scores 70 on the moving elevator and -1050 on
  both idle ones: the first idle one (index 1) wins. A request of 681 kg excludes all.
\<close>

theorem C4_assignment_first_minimum_witness:
  "snd (tryAssignElevator threeSystem lobbyRequest) = Some 1 \<and>
   snd (tryAssignElevatorDirect threeSystem lobbyRequest) = Some 1 \<and>
   map (\<lambda>el. (eligible el lobbyRequest, score_spec el lobbyRequest)) (elevators threeSystem) =
     [(True, 70), (True, - 1050), (True, - 1050)] \<and>
   snd (tryAssignElevatorDirect threeSystem heavyRequest) = None \<and>
   map (\<lambda>el. eligible el heavyRequest) (elevators threeSystem) = [False, False, False]"
proof -
  have a: "snd (tryAssignElevatorDirect threeSystem lobbyRequest) = Some 1" by code_simp
  have b: "map (\<lambda>el. (eligible el lobbyRequest, score_spec el lobbyRequest)) (elevators threeSystem) =
     [(True, 70), (True, - 1050), (True, - 1050)]" by code_simp
  have c: "snd (tryAssignElevatorDirect threeSystem heavyRequest) = None" by code_simp
  have d: "map (\<lambda>el. eligible el heavyRequest) (elevators threeSystem) = [False, False, False]"
    by code_simp
  have "snd (tryAssignElevator threeSystem lobbyRequest) =
        snd (tryAssignElevatorDirect threeSystem lobbyRequest)"
    using C4_assignment_first_minimum [of threeSystem lobbyRequest] by (rule conjunct1)
  then show ?thesis using a b c d by simp
qed

section \<open>Construction\<close>

text \<open>
  C9, as the code has it. Construction validates nothing: for every elevator count, floor
  count and options the system is created, with the floor count stored as given, one
  elevator per number from 1 to the count, each idle at floor 1 with no passengers and
  no targets, and with the people and weight limits taken from the options when present
  and not 0 (also when negative), 8 and 680 otherwise.
\<close>

theorem C9_construction_never_rejects:
  "sysTotalFloors (ElevatorSystem_new n tf opts) = tf \<and>
   length (elevators (ElevatorSystem_new n tf opts)) = nat n \<and>
   pendingRequests (ElevatorSystem_new n tf opts) = [] \<and>
   tickCount (ElevatorSystem_new n tf opts) = 0 \<and>
   (\<forall>el \<in> set (elevators (ElevatorSystem_new n tf opts)).
      totalFloors el = tf \<and> currentFloor el = 1 \<and> state el = IDLE \<and> direction el = NONE \<and>
      passengers el = [] \<and> targets el = [] \<and>
      maxPeople el = (case optMaxPeople opts of None \<Rightarrow> 8 | Some v \<Rightarrow> if v = 0 then 8 else v) \<and>
      maxWeight el = (case optMaxWeight opts of None \<Rightarrow> 680 | Some v \<Rightarrow> if v = 0 then 680 else v))"
  by (auto simp: ElevatorSystem_new_def Elevator_new_def or_default_def)

theorem C9_construction_never_rejects_witness:
  "length (elevators (ElevatorSystem_new 1 0 badOpts)) = 1 \<and>
   sysTotalFloors (ElevatorSystem_new 1 0 badOpts) = 0 \<and>
   map maxPeople (elevators (ElevatorSystem_new 1 0 badOpts)) = [- 1]"
proof -
  have m: "map maxPeople (elevators (ElevatorSystem_new 1 0 badOpts)) = [- 1]" by code_simp
  show ?thesis using C9_construction_never_rejects [of 1 0 badOpts] m by simp
qed

text \<open>
  The claim as stated fails: zero floors and negative limits are accepted, the system
  exists, and a tick runs on it.
\<close>

theorem C9_construction_never_rejects_counterexample:
  "ElevatorSystem_new 1 0 badOpts =
     \<lparr> elevators = [\<lparr> eid = 1, totalFloors = 0, currentFloor = 1, state = IDLE, direction = NONE,
                       maxPeople = - 1, maxWeight = - 680, passengers = [], targets = [],
                       doorTimer = 0, tickTimeMs = 1000 \<rparr>],
       sysTotalFloors = 0, pendingRequests = [], tickMs = 1000, tickCount = 0 \<rparr> \<and>
   tickCount (fst (tick (ElevatorSystem_new 1 0 badOpts))) = 1"
  by code_simp

section \<open>Boarding\<close>

lemma boardLoop_Suc:
  "boardLoop (Suc i) el q =
     (if pfrom (q ! i) = currentFloor el \<and> state el = OPEN_DOOR \<and> directionMatches el (q ! i)
      then (if capacityAccepts el (q ! i) then boardLoop i (admit el (q ! i)) (splice1 i q)
            else if isFull el then (el, q) else boardLoop i el q)
      else boardLoop i el q)"
  by (simp add: Let_def directionMatches_def capacityAccepts_def admit_def not_less)

lemma admit_fields:
  "currentFloor (admit el r) = currentFloor el"
  "totalFloors (admit el r) = totalFloors el"
  "maxPeople (admit el r) = maxPeople el"
  "maxWeight (admit el r) = maxWeight el"
  "state (admit el r) = state el"
  "direction (admit el r) = direction el"
  "doorTimer (admit el r) = doorTimer el"
  "passengers (admit el r) = passengers el @ [r]"
  by (simp_all add: admit_def)









section \<open>Invariants of a run\<close>

lemma list_update_addTarget:
  assumes "list_all P els" and "\<And>el. P el \<Longrightarrow> P (addTarget el f)"
  shows "list_all P (els[b := addTarget (els ! b) f])"
proof (cases "b < length els")
  case True
  then have "P (addTarget (els ! b) f)" using assms by (simp add: list_all_length)
  then show ?thesis using assms(1) True
    by (auto simp: list_all_length nth_list_update)
next
  case False
  then show ?thesis using assms(1) by (simp add: list_update_beyond)
qed

lemma tryAssignElevatorDirect_inv:
  assumes "sysInv P Q s" and "\<And>el f. P el \<Longrightarrow> P (addTarget el f)"
  shows "sysInv P Q (fst (tryAssignElevatorDirect s r))"
  using assms list_update_addTarget [of P "elevators s"]
  by (auto simp: tryAssignElevatorDirect_def sysInv_def split: option.splits)

lemma tryAssignElevatorDirect_pending:
  "pendingRequests (fst (tryAssignElevatorDirect s r)) = pendingRequests s"
  by (simp add: tryAssignElevatorDirect_def split: option.splits prod.splits)

lemma tryAssignElevator_inv:
  assumes "sysInv P Q s" and "\<And>el f. P el \<Longrightarrow> P (addTarget el f)" and "Q r"
  shows "sysInv P Q (fst (tryAssignElevator s r))"
  using assms list_update_addTarget [of P "elevators s"]
  by (auto simp: tryAssignElevator_def sysInv_def split: option.splits)

lemma tickAssignLoop_inv:
  assumes "\<And>el f. P el \<Longrightarrow> P (addTarget el f)"
  shows "sysInv P Q s \<Longrightarrow> sysInv P Q (tickAssignLoop i s)"
proof (induction i arbitrary: s)
  case 0
  then show ?case by simp
next
  case (Suc i)
  have "sysInv P Q (fst (tryAssignElevatorDirect s (pendingRequests s ! i)))"
    using tryAssignElevatorDirect_inv [where P = P and Q = Q and s = s] Suc.prems assms by blast
  from Suc.IH [OF this] show ?case by (auto simp: Let_def split: prod.splits)
qed

lemma stepLoop_inv:
  assumes "\<And>el q. P el \<Longrightarrow> list_all Q q \<Longrightarrow>
             P (fst (stepTick el q)) \<and> list_all Q (snd (stepTick el q))"
  shows "list_all P els \<Longrightarrow> list_all Q q \<Longrightarrow>
         list_all P (fst (stepLoop els q)) \<and> list_all Q (snd (stepLoop els q))"
proof (induction els arbitrary: q)
  case Nil
  then show ?case by simp
next
  case (Cons el els)
  have s: "P (fst (stepTick el q))" "list_all Q (snd (stepTick el q))"
    using assms [of el q] Cons.prems by simp_all
  have "list_all P els" using Cons.prems(1) by simp
  from Cons.IH [OF this s(2)] s(1) show ?case
    by (auto simp: Let_def split: prod.splits)
qed

lemma list_all_splice1: "list_all Q xs \<Longrightarrow> list_all Q (splice1 i xs)"
  unfolding splice1_def list_all_iff
  by (auto dest: in_set_takeD in_set_dropD)

lemma releaseLoop_inv:
  assumes "\<And>el f. P el \<Longrightarrow> P (addTarget el f)"
  shows "sysInv P Q s \<Longrightarrow> sysInv P Q (releaseLoop i s)"
proof (induction i arbitrary: s)
  case 0
  then show ?case by simp
next
  case (Suc i)
  let ?s1 = "fst (tryAssignElevatorDirect s (pendingRequests s ! i))"
  have s1: "sysInv P Q ?s1"
    using tryAssignElevatorDirect_inv [where P = P and Q = Q and s = s] Suc.prems assms by blast
  have s2: "sysInv P Q (?s1\<lparr>pendingRequests := splice1 idx (pendingRequests ?s1)\<rparr>)" for idx
    using s1 list_all_splice1 [of Q "pendingRequests ?s1" idx] by (simp add: sysInv_def)
  show ?case
    using Suc.IH [OF s1] Suc.IH [OF s2]
    by (auto simp: Let_def split: prod.splits option.splits)
qed

lemma tick_inv:
  assumes "\<And>el f. P el \<Longrightarrow> P (addTarget el f)"
    and "\<And>el q. P el \<Longrightarrow> list_all Q q \<Longrightarrow>
             P (fst (stepTick el q)) \<and> list_all Q (snd (stepTick el q))"
    and "sysInv P Q s"
  shows "sysInv P Q (fst (tick s))"
proof -
  let ?s0 = "s\<lparr>tickCount := tickCount s + 1\<rparr>"
  let ?s1 = "tickAssignLoop (length (pendingRequests ?s0)) ?s0"
  have "sysInv P Q ?s0" using assms(3) by (simp add: sysInv_def)
  then have s1: "sysInv P Q ?s1"
    using tickAssignLoop_inv [where P = P and Q = Q and s = ?s0] assms(1) by blast
  let ?r = "stepLoop (elevators ?s1) (pendingRequests ?s1)"
  let ?s2 = "?s1\<lparr>elevators := fst ?r, pendingRequests := snd ?r\<rparr>"
  have s2: "sysInv P Q ?s2"
    using stepLoop_inv [where P = P and Q = Q and els = "elevators ?s1" and q = "pendingRequests ?s1"]
      assms(2) s1
    unfolding sysInv_def by simp
  have s3: "sysInv P Q (releasePendingToIdleElevators ?s2)"
    unfolding releasePendingToIdleElevators_def
    using releaseLoop_inv [where P = P and Q = Q and s = ?s2] assms(1) s2 by blast
  show ?thesis using s2 s3 by (simp add: tick_def Let_def case_prod_beta)
qed

lemma requestElevator_inv:
  assumes "\<And>el f. P el \<Longrightarrow> P (addTarget el f)"
    and "sysInv P Q s"
    and "Q \<lparr>pid = newId, pfrom = a, pto = b, weight = w\<rparr>"
  shows "sysInv P Q (fst (requestElevator s newId a b w))"
proof -
  let ?p = "\<lparr>pid = newId, pfrom = a, pto = b, weight = w\<rparr>"
  have t: "sysInv P Q (fst (tryAssignElevator s ?p))"
    using tryAssignElevator_inv [where P = P and Q = Q and s = s and r = ?p] assms by blast
  then have "sysInv P Q ((fst (tryAssignElevator s ?p))
               \<lparr>pendingRequests := pendingRequests (fst (tryAssignElevator s ?p)) @ [?p]\<rparr>)"
    using assms(3) by (simp add: sysInv_def)
  with t assms(2) show ?thesis
    by (auto simp: requestElevator_def Let_def split: prod.splits option.splits)
qed

lemma run_inv:
  assumes "\<And>el f. P el \<Longrightarrow> P (addTarget el f)"
    and "\<And>el q. P el \<Longrightarrow> list_all Q q \<Longrightarrow>
             P (fst (stepTick el q)) \<and> list_all Q (snd (stepTick el q))"
    and "\<And>newId a b w. weightOk (Request newId a b w) \<Longrightarrow>
             Q \<lparr>pid = newId, pfrom = a, pto = b, weight = w\<rparr>"
  shows "sysInv P Q s \<Longrightarrow> list_all weightOk evs \<Longrightarrow> sysInv P Q (run s evs)"
proof (induction evs arbitrary: s)
  case Nil
  then show ?case by (simp add: run_def)
next
  case (Cons ev evs)
  have "sysInv P Q (apply_event s ev)"
  proof (cases ev)
    case (Request newId a b w)
    then show ?thesis
      using requestElevator_inv [where P = P and Q = Q and s = s and newId = newId and a = a and b = b and w = w]
        assms(1) assms(3) [of newId a b w] Cons.prems
      by simp
  next
    case Tick
    then show ?thesis
      using tick_inv [where P = P and Q = Q and s = s] assms(1) assms(2) Cons.prems(1) by simp
  qed
  from Cons.IH [OF this] Cons.prems(2) show ?case by (simp add: run_def)
qed


lemma boardLoop_fields:
  "currentFloor (fst (boardLoop i el q)) = currentFloor el \<and>
   totalFloors (fst (boardLoop i el q)) = totalFloors el \<and>
   maxPeople (fst (boardLoop i el q)) = maxPeople el \<and>
   maxWeight (fst (boardLoop i el q)) = maxWeight el \<and>
   state (fst (boardLoop i el q)) = state el \<and>
   direction (fst (boardLoop i el q)) = direction el \<and>
   doorTimer (fst (boardLoop i el q)) = doorTimer el"
proof (induction i arbitrary: el q)
  case 0
  show ?case by simp
next
  case (Suc i)
  show ?case
    using Suc.IH [of el q] Suc.IH [of "admit el (q ! i)" "splice1 i q"]
    by (simp add: boardLoop_Suc admit_fields del: boardLoop.simps)
qed

lemma addTarget_floorInv: "floorInv tf el \<Longrightarrow> floorInv tf (addTarget el f)"
  by (simp add: floorInv_def addTarget_def openDoorImmediately_def Let_def)

lemma stepTick_floor:
  assumes "1 \<le> currentFloor el" and "currentFloor el \<le> totalFloors el"
  shows "1 \<le> currentFloor (fst (stepTick el q)) \<and>
         currentFloor (fst (stepTick el q)) \<le> totalFloors (fst (stepTick el q)) \<and>
         totalFloors (fst (stepTick el q)) = totalFloors el"
proof (cases "state el")
  case IDLE
  then show ?thesis using assms by (simp add: stepTick_def openDoorImmediately_def Let_def)
next
  case MOVING
  then show ?thesis using assms by (simp add: stepTick_def Let_def)
next
  case OPEN_DOOR
  have h: "currentFloor (handleAlightings el) = currentFloor el"
    "totalFloors (handleAlightings el) = totalFloors el"
    by (simp_all add: handleAlightings_def)
  show ?thesis using OPEN_DOOR assms h
    boardLoop_fields [of "length q" "handleAlightings el" q]
    by (simp add: stepTick_def handleBoardings_def Let_def case_prod_beta)
next
  case CLOSE_DOOR
  then show ?thesis using assms by (simp add: stepTick_def Let_def)
qed

lemma stepTick_floorInv: "floorInv tf el \<Longrightarrow> floorInv tf (fst (stepTick el q))"
  using stepTick_floor [of el q] by (simp add: floorInv_def)

lemma ElevatorSystem_new_floorInv:
  "1 \<le> tf \<Longrightarrow> sysInv (floorInv tf) (\<lambda>p. True) (ElevatorSystem_new n tf opts)"
  by (simp add: sysInv_def ElevatorSystem_new_def Elevator_new_def floorInv_def list_all_iff)

lemma run_inv_any:
  assumes "\<And>el f. P el \<Longrightarrow> P (addTarget el f)"
    and "\<And>el q. P el \<Longrightarrow> P (fst (stepTick el q))"
  shows "sysInv P (\<lambda>p. True) s \<Longrightarrow> sysInv P (\<lambda>p. True) (run s evs)"
proof (induction evs arbitrary: s)
  case Nil
  then show ?case by (simp add: run_def)
next
  case (Cons ev evs)
  have "sysInv P (\<lambda>p. True) (apply_event s ev)"
  proof (cases ev)
    case (Request newId a b w)
    then show ?thesis
      using requestElevator_inv [where P = P and Q = "\<lambda>p. True" and s = s and newId = newId and a = a and b = b and w = w]
        assms(1) Cons.prems
      by simp
  next
    case Tick
    then show ?thesis
      using tick_inv [where P = P and Q = "\<lambda>p. True" and s = s] assms Cons.prems(1)
      by (simp add: list_all_iff)
  qed
  from Cons.IH [OF this] show ?case by (simp add: run_def)
qed

text \<open>
  C8, as the code has it. In a system built with at least one floor, every elevator of
  every state a run reaches (any requests, any ticks) has its floor between 1 and the
  floor count.
\<close>

theorem C8_floor_in_range:
  assumes "1 \<le> tf" and "el \<in> set (elevators (run (ElevatorSystem_new n tf opts) evs))"
  shows "1 \<le> currentFloor el \<and> currentFloor el \<le> tf \<and> totalFloors el = tf"
proof -
  have "sysInv (floorInv tf) (\<lambda>p. True) (run (ElevatorSystem_new n tf opts) evs)"
    using run_inv_any [where P = "floorInv tf" and s = "ElevatorSystem_new n tf opts" and evs = evs]
      addTarget_floorInv [of tf] stepTick_floorInv [of tf] ElevatorSystem_new_floorInv [OF assms(1)]
    by blast
  then have "floorInv tf el" using assms(2) by (simp add: sysInv_def list_all_iff)
  then show ?thesis by (simp add: floorInv_def)
qed

text \<open>Nine ticks after the request 1 \<rightarrow> 3 the elevator stands at the top floor, 3.\<close>

theorem C8_floor_in_range_witness:
  "(1::int) \<le> 3 \<and> elevators topSystem ! 0 \<in> set (elevators topSystem) \<and>
   currentFloor (elevators topSystem ! 0) = 3 \<and> totalFloors (elevators topSystem ! 0) = 3"
proof -
  have m: "elevators topSystem ! 0 \<in> set (elevators topSystem)" by code_simp
  have c: "currentFloor (elevators topSystem ! 0) = 3" by code_simp
  have "elevators topSystem ! 0 \<in> set (elevators (run (ElevatorSystem_new 1 3 defaultOpts)
          [Request ''r1'' 1 3 70, Tick, Tick, Tick, Tick, Tick, Tick, Tick, Tick, Tick]))"
    using m by (simp add: topSystem_def smallSystem_def)
  from C8_floor_in_range [OF _ this] have "totalFloors (elevators topSystem ! 0) = 3" by simp
  then show ?thesis using m c by simp
qed

text \<open>
  The claim as stated fails for a system built with zero floors, which the constructor
  accepts: its elevator is at floor 1, above the floor count 0, at construction and
  after a tick.
\<close>

theorem C8_floor_in_range_counterexample:
  "map currentFloor (elevators (ElevatorSystem_new 1 0 defaultOpts)) = [1] \<and>
   map totalFloors (elevators (ElevatorSystem_new 1 0 defaultOpts)) = [0] \<and>
   map currentFloor (elevators noFloorSystem) = [1] \<and>
   map totalFloors (elevators noFloorSystem) = [0]"
  by code_simp


lemma foldl_weight: "foldl (\<lambda>s p. s + weight p) a ps = a + sum_list (map weight ps)"
  by (induction ps arbitrary: a) simp_all

lemma occupancyWeight_sum: "occupancyWeight el = sum_list (map weight (passengers el))"
  by (simp add: occupancyWeight_def foldl_weight)

lemma sum_filter_le:
  "list_all (\<lambda>p. 0 \<le> weight p) ps \<Longrightarrow>
   0 \<le> sum_list (map weight (filter P ps)) \<and>
   sum_list (map weight (filter P ps)) \<le> sum_list (map weight ps)"
  by (induction ps) auto

lemma addTarget_passengers:
  "passengers (addTarget el f) = passengers el \<and> maxPeople (addTarget el f) = maxPeople el \<and>
   maxWeight (addTarget el f) = maxWeight el"
  by (simp add: addTarget_def openDoorImmediately_def Let_def)

lemma addTarget_capInv: "capInv el \<Longrightarrow> capInv (addTarget el f)"
  using addTarget_passengers [of el f]
  by (simp add: capInv_def occupancyCount_def occupancyWeight_sum)

lemma handleAlightings_capInv: "capInv el \<Longrightarrow> capInv (handleAlightings el)"
proof -
  assume c: "capInv el"
  let ?ps = "filter (\<lambda>p. pto p \<noteq> currentFloor el) (passengers el)"
  have w: "list_all (\<lambda>p. 0 \<le> weight p) (passengers el)" using c by (simp add: capInv_def)
  have "length ?ps \<le> length (passengers el)" by simp
  then have l: "int (length ?ps) \<le> maxPeople el"
    using c unfolding capInv_def occupancyCount_def by linarith
  have a: "list_all (\<lambda>p. 0 \<le> weight p) ?ps" using w by (simp add: list_all_iff)
  show ?thesis
    using c sum_filter_le [OF w, of "\<lambda>p. pto p \<noteq> currentFloor el"] l a
    by (simp add: capInv_def handleAlightings_def occupancyCount_def occupancyWeight_sum)
qed

lemma admit_capInv:
  "capInv el \<Longrightarrow> capacityAccepts el r \<Longrightarrow> 0 \<le> weight r \<Longrightarrow> capInv (admit el r)"
  by (simp add: capInv_def capacityAccepts_def admit_def occupancyCount_def occupancyWeight_sum)

lemma boardLoop_capInv:
  "i \<le> length q \<Longrightarrow> list_all (\<lambda>p. 0 \<le> weight p) q \<Longrightarrow> capInv el \<Longrightarrow>
   capInv (fst (boardLoop i el q)) \<and> list_all (\<lambda>p. 0 \<le> weight p) (snd (boardLoop i el q))"
proof (induction i arbitrary: el q)
  case 0
  then show ?case by simp
next
  case (Suc i)
  have i: "i < length q" using Suc.prems(1) by simp
  then have w: "0 \<le> weight (q ! i)" using Suc.prems(2) by (simp add: list_all_length)
  have keep: "capInv (fst (boardLoop i el q)) \<and>
              list_all (\<lambda>p. 0 \<le> weight p) (snd (boardLoop i el q))"
    using Suc.IH [of q el] i Suc.prems by simp
  have sp: "i \<le> length (splice1 i q)" using i by (simp add: splice1_def)
  have adm: "capacityAccepts el (q ! i) \<Longrightarrow>
     capInv (fst (boardLoop i (admit el (q ! i)) (splice1 i q))) \<and>
     list_all (\<lambda>p. 0 \<le> weight p) (snd (boardLoop i (admit el (q ! i)) (splice1 i q)))"
    using Suc.IH [OF sp list_all_splice1 [OF Suc.prems(2)], of "admit el (q ! i)"]
      admit_capInv [OF Suc.prems(3) _ w] by simp
  show ?case using keep adm Suc.prems(2,3)
    by (simp add: boardLoop_Suc del: boardLoop.simps)
qed

lemma stepTick_capInv:
  assumes "capInv el" and "list_all (\<lambda>p. 0 \<le> weight p) q"
  shows "capInv (fst (stepTick el q)) \<and> list_all (\<lambda>p. 0 \<le> weight p) (snd (stepTick el q))"
proof (cases "state el")
  case IDLE
  then show ?thesis using assms
    by (simp add: stepTick_def openDoorImmediately_def Let_def capInv_def
        occupancyCount_def occupancyWeight_sum)
next
  case MOVING
  then show ?thesis using assms
    by (simp add: stepTick_def Let_def capInv_def occupancyCount_def occupancyWeight_sum)
next
  case OPEN_DOOR
  let ?r = "boardLoop (length q) (handleAlightings el) q"
  have b: "capInv (fst ?r) \<and> list_all (\<lambda>p. 0 \<le> weight p) (snd ?r)"
    using boardLoop_capInv [of "length q" q "handleAlightings el"]
      handleAlightings_capInv [OF assms(1)] assms(2) by simp
  have c: "capInv (e\<lparr>doorTimer := d\<rparr>) = capInv e" "capInv (e\<lparr>state := st\<rparr>) = capInv e" for e d st
    by (simp_all add: capInv_def occupancyCount_def occupancyWeight_sum)
  show ?thesis using OPEN_DOOR b
    by (simp add: stepTick_def handleBoardings_def Let_def case_prod_beta c)
next
  case CLOSE_DOOR
  then show ?thesis using assms
    by (simp add: stepTick_def Let_def capInv_def occupancyCount_def occupancyWeight_sum)
qed

lemma boardLoop_upper:
  "occupancyCount el \<le> maxPeople el \<and> occupancyWeight el \<le> maxWeight el \<Longrightarrow>
   occupancyCount (fst (boardLoop i el q)) \<le> maxPeople (fst (boardLoop i el q)) \<and>
   occupancyWeight (fst (boardLoop i el q)) \<le> maxWeight (fst (boardLoop i el q))"
proof (induction i arbitrary: el q)
  case 0
  then show ?case by simp
next
  case (Suc i)
  have adm: "capacityAccepts el (q ! i) \<Longrightarrow>
        occupancyCount (admit el (q ! i)) \<le> maxPeople (admit el (q ! i)) \<and>
        occupancyWeight (admit el (q ! i)) \<le> maxWeight (admit el (q ! i))"
    by (simp add: capacityAccepts_def admit_def occupancyCount_def occupancyWeight_sum)
  show ?case
    using Suc.IH [OF Suc.prems] Suc.IH [OF adm, of "splice1 i q"] Suc.prems
    by (simp add: boardLoop_Suc del: boardLoop.simps)
qed

lemma ElevatorSystem_new_capInv:
  "limitsOk opts \<Longrightarrow> sysInv capInv (\<lambda>p. 0 \<le> weight p) (ElevatorSystem_new n tf opts)"
  by (auto simp: sysInv_def ElevatorSystem_new_def Elevator_new_def capInv_def list_all_iff
      limitsOk_def or_default_def occupancyCount_def occupancyWeight_def split: option.splits)

text \<open>
  C1, as the code has it. In a system built with people and weight limits that are
  absent or not negative, and fed only requests of non-negative weight, every elevator
  of every state a run reaches carries between 0 and \<open>maxPeople\<close> passengers and between
  0 and \<open>maxWeight\<close> of total weight. And for any elevator and any queue at all, a
  boarding step that starts within both limits ends within both limits.
\<close>

theorem C1_capacity_invariant:
  assumes "limitsOk opts" and "list_all weightOk evs"
    and "el \<in> set (elevators (run (ElevatorSystem_new n tf opts) evs))"
  shows "0 \<le> occupancyCount el \<and> occupancyCount el \<le> maxPeople el \<and>
         0 \<le> occupancyWeight el \<and> occupancyWeight el \<le> maxWeight el \<and>
         (occupancyCount e \<le> maxPeople e \<and> occupancyWeight e \<le> maxWeight e \<longrightarrow>
            occupancyCount (fst (handleBoardings e q)) \<le> maxPeople (fst (handleBoardings e q)) \<and>
            occupancyWeight (fst (handleBoardings e q)) \<le> maxWeight (fst (handleBoardings e q)))"
proof -
  have q: "weightOk (Request newId a b w) \<Longrightarrow> 0 \<le> weight \<lparr>pid = newId, pfrom = a, pto = b, weight = w\<rparr>"
    for newId a b w by simp
  have "sysInv capInv (\<lambda>p. 0 \<le> weight p) (run (ElevatorSystem_new n tf opts) evs)"
    using run_inv [where P = capInv and Q = "\<lambda>p. 0 \<le> weight p"
        and s = "ElevatorSystem_new n tf opts" and evs = evs]
      addTarget_capInv stepTick_capInv q ElevatorSystem_new_capInv [OF assms(1)] assms(2)
    by blast
  then have "capInv el" using assms(3) by (simp add: sysInv_def list_all_iff)
  then have inv: "0 \<le> occupancyCount el \<and> occupancyCount el \<le> maxPeople el \<and>
         0 \<le> occupancyWeight el \<and> occupancyWeight el \<le> maxWeight el"
    by (simp add: capInv_def occupancyCount_def)
  show ?thesis using inv boardLoop_upper [of e "length q" q] by (simp add: handleBoardings_def)
qed

text \<open>
  The one-person elevator holds one passenger of 80 kg after its first boarding step,
  and a further boarding step against the two waiting requests admits nobody.
\<close>

theorem C1_capacity_invariant_witness:
  "limitsOk onePersonOpts \<and>
   elevators fullSystem ! 0 \<in> set (elevators fullSystem) \<and>
   occupancyCount (elevators fullSystem ! 0) = 1 \<and> maxPeople (elevators fullSystem ! 0) = 1 \<and>
   occupancyWeight (elevators fullSystem ! 0) = 80 \<and> maxWeight (elevators fullSystem ! 0) = 680 \<and>
   length (pendingRequests fullSystem) = 2 \<and>
   occupancyCount (fst (handleBoardings (elevators fullSystem ! 0) (pendingRequests fullSystem))) = 1"
proof -
  let ?evs = "[Request ''p1'' 1 3 70, Request ''p2'' 1 2 80, Request ''p3'' 2 3 60, Tick]"
  let ?el = "elevators fullSystem ! 0"
  have l: "limitsOk onePersonOpts" by code_simp
  have e: "list_all weightOk ?evs" by simp
  have m: "?el \<in> set (elevators fullSystem)" by code_simp
  have v: "occupancyCount ?el = 1" "maxPeople ?el = 1" "occupancyWeight ?el = 80"
    "maxWeight ?el = 680" "length (pendingRequests fullSystem) = 2" by code_simp+
  have m': "?el \<in> set (elevators (run (ElevatorSystem_new 1 3 onePersonOpts) ?evs))"
    using m by (simp add: fullSystem_def)
  note t = C1_capacity_invariant [OF l e m', of ?el "pendingRequests fullSystem"]
  have mp: "maxPeople (fst (handleBoardings ?el (pendingRequests fullSystem))) = 1" by code_simp
  have "occupancyCount (fst (handleBoardings ?el (pendingRequests fullSystem))) \<le> 1"
    using t v mp by simp
  moreover have "1 \<le> occupancyCount (fst (handleBoardings ?el (pendingRequests fullSystem)))"
    by code_simp
  ultimately show ?thesis using l m v by simp
qed

text \<open>
  The claim as stated fails in three ways the code allows: a request of -5 kg boards and
  the total weight is -5; a request of -100 kg lets one of 700 kg board, and once the
  first has alighted the elevator carries 700 kg against a limit of 680; and an elevator
  built with \<open>maxPeople = -1\<close> holds 0 passengers, above its limit.
\<close>

theorem C1_capacity_invariant_counterexample:
  "map occupancyWeight (elevators negativeWeightSystem) = [- 5] \<and>
   map occupancyWeight (elevators overweightSystem) = [700] \<and>
   map maxWeight (elevators overweightSystem) = [680] \<and>
   map occupancyCount (elevators (ElevatorSystem_new 1 3 badOpts)) = [0] \<and>
   map maxPeople (elevators (ElevatorSystem_new 1 3 badOpts)) = [- 1]"
  by code_simp

section \<open>The tick\<close>














end
